theory Spec2Isabelle
  imports Main "HOL-Library.Sublist"
begin

section \<open>Data model (src/src/type.ts and the state hooks of src/src/App.tsx)\<close>

text \<open>
  The interface \<open>Cat\<close> of type.ts. Both identifier fields are optional, so each is a
  \<open>string option\<close> (\<open>None\<close> is JavaScript's \<open>undefined\<close>). The field \<open>_id\<close> is called
  \<open>x_id\<close> and the field \<open>id\<close> is called \<open>alt_id\<close>, since an Isabelle name neither starts
  with an underscore nor should hide the identity function. For \<open>tags\<close>, \<open>None\<close> stands
  for a value that is absent or not an array.
\<close>

record Cat =
  x_id :: "string option"
  alt_id :: "string option"
  mimetype :: string
  size :: int
  tags :: "string list option"

datatype direction = DirLeft | DirRight

datatype action = Like | Dislike

datatype view_mode = SwipeMode | SummaryMode

datatype error = TypeError | FetchError

text \<open>
  One element of the \<open>history\<close> state: \<open>{ cat, action }\<close>. The cat is read as
  \<open>cats[currentIndex]\<close>, which is \<open>undefined\<close> out of range, hence the option.
\<close>

record entry =
  cat :: "Cat option"
  action :: action

text \<open>
  The \<open>useState\<close> hooks of \<open>App\<close>. \<open>currentIndex\<close> is a JavaScript number that the code
  increments and decrements, so it is an \<open>int\<close>: that it never becomes negative is a
  property to prove, not a consequence of the type.
\<close>

record session =
  cats :: "Cat list"
  likedCats :: "Cat option list"
  currentIndex :: int
  loading :: bool
  exitDirection :: "direction option"
  viewMode :: view_mode
  history :: "entry list"

text \<open>The state of the first render, where \<open>loading\<close> starts as \<open>true\<close>.\<close>

definition initial :: session where
  "initial = \<lparr>cats = [], likedCats = [], currentIndex = 0, loading = True,
     exitDirection = None, viewMode = SwipeMode, history = []\<rparr>"

section \<open>The card provider: fetchCats\<close>

text \<open>JavaScript's \<open>a || b\<close> on optional strings: \<open>undefined\<close> and \<open>""\<close> are falsy.\<close>

definition js_or :: "string option \<Rightarrow> string option \<Rightarrow> string option" where
  "js_or a b = (case a of None \<Rightarrow> b | Some v \<Rightarrow> (if v = [] then b else a))"

text \<open>
  The body of \<open>data.map\<close>: the record is copied, \<open>_id\<close> becomes \<open>cat._id || cat.id\<close> and
  \<open>tags\<close> becomes the array it was, or \<open>[]\<close>.
\<close>

definition normalise :: "Cat \<Rightarrow> Cat" where
  "normalise c = c\<lparr>x_id := js_or (x_id c) (alt_id c),
     tags := (case tags c of None \<Rightarrow> Some [] | Some ts \<Rightarrow> Some ts)\<rparr>"

text \<open>
  What the awaited part of the \<open>try\<close> block meets: an exception (the request rejects,
  the body is not JSON, the JSON is not an array) or the decoded batch.
\<close>

datatype fetch_outcome = Failure error | Batch "Cat list"

definition try_block :: "fetch_outcome \<Rightarrow> error + Cat list" where
  "try_block r = (case r of Failure e \<Rightarrow> Inl e | Batch d \<Rightarrow> Inr (map normalise d))"

text \<open>The synchronous start of \<open>fetchCats\<close>: \<open>setLoading(true)\<close>.\<close>

definition fetch_begin :: "session \<Rightarrow> session" where
  "fetch_begin s = s\<lparr>loading := True\<rparr>"

text \<open>
  The rest of \<open>fetchCats\<close>, run when the request settles: \<open>setCats\<close> on success, the
  \<open>catch\<close> branch (which only logs) on an exception, then \<open>finally\<close>.
\<close>

definition fetch_done :: "fetch_outcome \<Rightarrow> session \<Rightarrow> session" where
  "fetch_done r s =
     (let s1 = (case try_block r of Inr validCats \<Rightarrow> s\<lparr>cats := validCats\<rparr> | Inl e \<Rightarrow> s)
      in s1\<lparr>loading := False\<rparr>)"

text \<open>
  The whole call, as its caller sees it. The result is a sum so that "no exception leaves
  the function" is a statement about the value.
\<close>

definition fetchCats :: "fetch_outcome \<Rightarrow> session \<Rightarrow> error + session" where
  "fetchCats r s = Inr (fetch_done r (fetch_begin s))"

section \<open>The session operations: swipe, resetApp, undoLast\<close>

text \<open>Array indexing \<open>xs[i]\<close>: \<open>undefined\<close> outside the array.\<close>

definition index :: "'a list \<Rightarrow> int \<Rightarrow> 'a option" where
  "index xs i = (if 0 \<le> i \<and> i < int (length xs) then Some (xs ! nat i) else None)"

definition action_of :: "direction \<Rightarrow> action" where
  "action_of d = (if d = DirRight then Like else Dislike)"

text \<open>
  \<open>swipe\<close> has a synchronous part and a part deferred by \<open>setTimeout\<close>. The deferred
  callback closes over \<open>direction\<close> and \<open>cat\<close>, which the synchronous part returns here.
\<close>

definition swipe_begin :: "direction \<Rightarrow> session \<Rightarrow> session \<times> (direction \<times> Cat option)" where
  "swipe_begin d s =
     (let c = index (cats s) (currentIndex s)
      in (s\<lparr>exitDirection := Some d,
             history := history s @ [\<lparr>cat = c, action = action_of d\<rparr>]\<rparr>, (d, c)))"

definition swipe_timeout :: "direction \<times> Cat option \<Rightarrow> session \<Rightarrow> session" where
  "swipe_timeout k s =
     (let s1 = (if fst k = DirRight then s\<lparr>likedCats := likedCats s @ [snd k]\<rparr> else s)
      in s1\<lparr>currentIndex := currentIndex s1 + 1, exitDirection := None\<rparr>)"

text \<open>
  The operation \<open>swipe\<close> as one step: the call followed by its own timer callback, with no
  other event in between.
\<close>

definition swipe :: "direction \<Rightarrow> session \<Rightarrow> session" where
  "swipe d s = (let (s1, k) = swipe_begin d s in swipe_timeout k s1)"

text \<open>
  \<open>resetApp\<close> up to the point where it returns: two setters and the synchronous start of
  \<open>fetchCats\<close>. The batch arrives later, through \<open>fetch_done\<close>.
\<close>

definition resetApp :: "session \<Rightarrow> session" where
  "resetApp s = fetch_begin (s\<lparr>likedCats := [], currentIndex := 0\<rparr>)"

text \<open>
  \<open>prev.filter((c) => c._id !== last.cat._id)\<close>. The callback runs once per element and
  reads \<open>c._id\<close>, then \<open>last.cat._id\<close>; either read throws when its object is \<open>undefined\<close>.
  On an empty array the callback never runs.
\<close>

fun filter_ids :: "Cat option \<Rightarrow> Cat option list \<Rightarrow> error + Cat option list" where
  "filter_ids lc [] = Inr []"
| "filter_ids lc (c # cs) =
     (case c of
        None \<Rightarrow> Inl TypeError
      | Some c' \<Rightarrow>
          (case lc of
             None \<Rightarrow> Inl TypeError
           | Some l \<Rightarrow>
               (case filter_ids lc cs of
                  Inl e \<Rightarrow> Inl e
                | Inr r \<Rightarrow> Inr (if x_id c' \<noteq> x_id l then c # r else r))))"

definition undoLast :: "session \<Rightarrow> error + session" where
  "undoLast s =
     (if length (history s) = 0 \<or> currentIndex s = 0 then Inr s
      else
        (let lst = last (history s) in
         (case (if action lst = Like then filter_ids (cat lst) (likedCats s)
                else Inr (likedCats s)) of
            Inl e \<Rightarrow> Inl e
          | Inr liked \<Rightarrow>
              Inr (s\<lparr>currentIndex := currentIndex s - 1, likedCats := liked,
                     history := butlast (history s)\<rparr>))))"

definition toggleView :: "session \<Rightarrow> session" where
  "toggleView s = s\<lparr>viewMode := (if viewMode s = SwipeMode then SummaryMode else SwipeMode)\<rparr>"

section \<open>Derived values shown by the renderer\<close>

definition totalCount :: "session \<Rightarrow> int" where
  "totalCount s = int (length (cats s))"

definition likedCount :: "session \<Rightarrow> int" where
  "likedCount s = int (length (likedCats s))"

text \<open>\<open>Math.max(0, currentIndex - likedCats.length)\<close>\<close>

definition dislikedCount :: "session \<Rightarrow> int" where
  "dislikedCount s = max 0 (currentIndex s - int (length (likedCats s)))"

text \<open>The identifiers of the liked cats, as a set.\<close>

definition likedIds :: "session \<Rightarrow> string option set" where
  "likedIds s = set (map x_id (List.map_filter (\<lambda>c. c) (likedCats s)))"

section \<open>Events and reachable states\<close>

text \<open>
  The render function decides which handlers exist. The summary screen (with the only
  "Start Over" button) is returned when
  \<open>currentIndex >= cats.length && !loading && cats.length > 0\<close>; the like, dislike and
  undo buttons are rendered when
  \<open>!loading && viewMode === "swipe" && currentIndex < cats.length\<close>, and the draggable
  card under the same condition; the toggle button belongs to the main screen.
\<close>

definition summary_screen :: "session \<Rightarrow> bool" where
  "summary_screen s \<longleftrightarrow>
     currentIndex s \<ge> int (length (cats s)) \<and> \<not> loading s \<and> length (cats s) > 0"

definition action_buttons :: "session \<Rightarrow> bool" where
  "action_buttons s \<longleftrightarrow>
     \<not> loading s \<and> viewMode s = SwipeMode \<and> currentIndex s < int (length (cats s))"

text \<open>
  A timer callback waiting to run, with what it closed over: \<open>direction\<close> and \<open>cat\<close>. The
  application is the session together with the callbacks that wait; all of them wait
  the same 200 ms, so they run in the order they were set.
\<close>

type_synonym closure = "direction \<times> Cat option"

type_synonym app = "session \<times> closure list"

datatype event = Swipe direction | Timer | Undo | Reset | FetchDone fetch_outcome | ToggleView

text \<open>
  \<open>Swipe d\<close> is a tap on a button (or a drag past the threshold): the call of \<open>swipe\<close>,
  which returns before its timer runs. \<open>Timer\<close> is the oldest waiting callback running.
  After every event the component renders again, so the next handler sees the state the
  event left.
\<close>

fun enabled :: "event \<Rightarrow> app \<Rightarrow> bool" where
  "enabled (Swipe d) (s, ts) = action_buttons s"
| "enabled Timer (s, ts) = (ts \<noteq> [])"
| "enabled Undo (s, ts) = action_buttons s"
| "enabled Reset (s, ts) = summary_screen s"
| "enabled (FetchDone r) (s, ts) = loading s"
| "enabled ToggleView (s, ts) = (\<not> summary_screen s)"

fun fire :: "event \<Rightarrow> app \<Rightarrow> error + app" where
  "fire (Swipe d) (s, ts) = (let (s1, k) = swipe_begin d s in Inr (s1, ts @ [k]))"
| "fire Timer (s, ts) = (case ts of [] \<Rightarrow> Inr (s, []) | k # r \<Rightarrow> Inr (swipe_timeout k s, r))"
| "fire Undo (s, ts) = (case undoLast s of Inl x \<Rightarrow> Inl x | Inr s' \<Rightarrow> Inr (s', ts))"
| "fire Reset (s, ts) = Inr (resetApp s, ts)"
| "fire (FetchDone r) (s, ts) = Inr (fetch_done r s, ts)"
| "fire ToggleView (s, ts) = Inr (toggleView s, ts)"

text \<open>
  Playing a list of events: the state reached when every event was offered by the screen
  of its moment and no handler threw, \<open>None\<close> otherwise.
\<close>

fun play :: "event list \<Rightarrow> app \<Rightarrow> app option" where
  "play [] a = Some a"
| "play (e # es) a =
     (if enabled e a then (case fire e a of Inl x \<Rightarrow> None | Inr a' \<Rightarrow> play es a') else None)"

text \<open>
  The states reached when the operations are carried out in turn: the application starts
  in \<open>initial\<close> with the first fetch in flight, every operation is one the current screen
  offers, and the timer of a swipe runs before anything else happens.
\<close>

inductive reached_in_turn :: "session \<Rightarrow> bool" where
  start: "reached_in_turn initial"
| swiped: "reached_in_turn s \<Longrightarrow> action_buttons s \<Longrightarrow> reached_in_turn (swipe d s)"
| undone: "reached_in_turn s \<Longrightarrow> action_buttons s \<Longrightarrow> undoLast s = Inr s' \<Longrightarrow>
     reached_in_turn s'"
| reset: "reached_in_turn s \<Longrightarrow> summary_screen s \<Longrightarrow> reached_in_turn (resetApp s)"
| fetched: "reached_in_turn s \<Longrightarrow> loading s \<Longrightarrow> reached_in_turn (fetch_done r s)"
| toggled: "reached_in_turn s \<Longrightarrow> \<not> summary_screen s \<Longrightarrow> reached_in_turn (toggleView s)"

section \<open>Notions used to state and prove the properties\<close>

text \<open>
  The direction that records a given decision: right for a like, left for a dislike
  (the inverse of \<open>action_of\<close>).
\<close>

definition direction_of :: "action \<Rightarrow> direction" where
  "direction_of a = (if a = Like then DirRight else DirLeft)"

text \<open>
  The last \<open>currentIndex\<close> entries of the history: the entries of the running session.
  Whatever lies below them was written before the last \<open>resetApp\<close>.
\<close>

definition live :: "session \<Rightarrow> entry list" where
  "live s = drop (length (history s) - nat (currentIndex s)) (history s)"

definition likes :: "entry list \<Rightarrow> Cat option list" where
  "likes es = map cat (filter (\<lambda>e. action e = Like) es)"

text \<open>The test of the filter in \<open>undoLast\<close>, on a defined cat \<open>l\<close>.\<close>

definition other_id :: "Cat \<Rightarrow> Cat option \<Rightarrow> bool" where
  "other_id l x \<longleftrightarrow> map_option x_id x \<noteq> Some (x_id l)"

text \<open>
  The invariant of the reachable states: the cursor is inside the batch, it is \<open>0\<close> while
  a fetch is in flight, the live entries are the cats swiped so far, in order, and the
  liked cats are among the liked live entries (all of them when the identifiers of the
  batch are distinct).
\<close>

definition session_inv :: "session \<Rightarrow> bool" where
  "session_inv s \<longleftrightarrow>
     0 \<le> currentIndex s \<and> currentIndex s \<le> int (length (cats s)) \<and>
     nat (currentIndex s) \<le> length (history s) \<and>
     (loading s \<longrightarrow> currentIndex s = 0) \<and>
     exitDirection s = None \<and>
     map cat (live s) = map Some (take (nat (currentIndex s)) (cats s)) \<and>
     subseq (likedCats s) (likes (live s)) \<and>
     (distinct (map x_id (cats s)) \<longrightarrow> likedCats s = likes (live s))"

text \<open>
  \<open>keeps h a\<close>: the entries \<open>h\<close> are still at the bottom of the history, below at least as
  many further entries as the cursor counts and the waiting timers will add to it.
\<close>

definition keeps :: "entry list \<Rightarrow> app \<Rightarrow> bool" where
  "keeps h a \<longleftrightarrow> prefix h (history (fst a)) \<and> 0 \<le> currentIndex (fst a) \<and>
      length h + nat (currentIndex (fst a)) + length (snd a) \<le> length (history (fst a))"

text \<open>
  \<open>booked a\<close>: every swipe counted by the cursor or still waiting for its timer has its
  entry in the history; \<open>balanced a\<close>: and the history has no other entries.
\<close>

definition booked :: "app \<Rightarrow> bool" where
  "booked a \<longleftrightarrow> 0 \<le> currentIndex (fst a) \<and>
      currentIndex (fst a) + int (length (snd a)) \<le> int (length (history (fst a)))"

definition balanced :: "app \<Rightarrow> bool" where
  "balanced a \<longleftrightarrow>
      int (length (history (fst a))) = currentIndex (fst a) + int (length (snd a))"

section \<open>Concrete sessions used below\<close>

definition catA :: Cat where
  "catA = \<lparr>x_id = Some ''a1'', alt_id = None, mimetype = ''image/jpeg'', size = 100,
     tags = Some [''cute'']\<rparr>"

definition catB :: Cat where
  "catB = \<lparr>x_id = Some ''b2'', alt_id = None, mimetype = ''image/png'', size = 200,
     tags = Some []\<rparr>"

definition catC :: Cat where
  "catC = \<lparr>x_id = Some ''c3'', alt_id = None, mimetype = ''image/png'', size = 300,
     tags = Some []\<rparr>"

text \<open>A second record with the identifier of \<open>catA\<close>, as a provider may send.\<close>

definition catA' :: Cat where
  "catA' = \<lparr>x_id = Some ''a1'', alt_id = None, mimetype = ''image/gif'', size = 150,
     tags = Some []\<rparr>"

definition entryA :: entry where
  "entryA = \<lparr>cat = Some catA, action = Like\<rparr>"

text \<open>A batch of one cat, liked: the summary screen is showing.\<close>

definition one_loaded :: session where
  "one_loaded = fetch_done (Batch [catA]) initial"

definition one_played :: session where
  "one_played = swipe DirRight one_loaded"

text \<open>"Start Over" from there, and the next batch arriving.\<close>

definition after_reset :: session where
  "after_reset = resetApp one_played"

definition second_session :: session where
  "second_session = fetch_done (Batch [catB]) (resetApp one_played)"

definition later :: session where
  "later = \<lparr>cats = [catB, catC], likedCats = [], currentIndex = 0, loading = False,
     exitDirection = None, viewMode = SwipeMode, history = [entryA]\<rparr>"

text \<open>A batch of three cats with distinct identifiers, the first one liked.\<close>

definition three_loaded :: session where
  "three_loaded = fetch_done (Batch [catA, catB, catC]) initial"

definition three_liked :: session where
  "three_liked = swipe DirRight three_loaded"

text \<open>
  A batch whose first two cats share an identifier: both liked, then the second like
  undone.
\<close>

definition dup_loaded :: session where
  "dup_loaded = fetch_done (Batch [catA, catA', catC]) initial"

definition dup_liked :: session where
  "dup_liked = swipe DirRight (swipe DirRight dup_loaded)"

definition dup_undone :: session where
  "dup_undone = dup_liked\<lparr>currentIndex := 1, likedCats := [], history := [entryA]\<rparr>"

text \<open>Where two taps on "like" within 200 ms lead, on a batch of one cat.\<close>

definition double_tapped :: session where
  "double_tapped = \<lparr>cats = [catA], likedCats = [Some catA, Some catA], currentIndex = 2,
     loading = False, exitDirection = None, viewMode = SwipeMode,
     history = [entryA, entryA]\<rparr>"

text \<open>
  Where a like of the second cat, undone before its timer has run, leads on a batch of
  three cats whose first cat was liked before.
\<close>

definition quickly_undone :: session where
  "quickly_undone = \<lparr>cats = [catA, catB, catC], likedCats = [Some catA, Some catB],
     currentIndex = 1, loading = False, exitDirection = None, viewMode = SwipeMode,
     history = [entryA]\<rparr>"

text \<open>
  "Start Over" tapped while the timer of a second tap on "like" still waits: the state
  right after \<open>resetApp\<close>, the state once that timer has run and the next batch has
  arrived, and the state after a tap on "undo" there.
\<close>

definition reset_mid_swipe :: session where
  "reset_mid_swipe = \<lparr>cats = [catA], likedCats = [], currentIndex = 0, loading = True,
     exitDirection = None, viewMode = SwipeMode, history = [entryA, entryA]\<rparr>"

definition old_entry_on_top :: session where
  "old_entry_on_top = \<lparr>cats = [catB, catC], likedCats = [Some catA], currentIndex = 1,
     loading = False, exitDirection = None, viewMode = SwipeMode,
     history = [entryA, entryA]\<rparr>"

definition old_entry_popped :: session where
  "old_entry_popped = \<lparr>cats = [catB, catC], likedCats = [], currentIndex = 0,
     loading = False, exitDirection = None, viewMode = SwipeMode, history = [entryA]\<rparr>"

section \<open>The operations, field by field\<close>

lemma swipe_eq:
  "swipe d s = s\<lparr>history := history s @
        [\<lparr>cat = index (cats s) (currentIndex s), action = action_of d\<rparr>],
      likedCats := (if d = DirRight then likedCats s @ [index (cats s) (currentIndex s)]
                    else likedCats s),
      currentIndex := currentIndex s + 1, exitDirection := None\<rparr>"
  by (simp add: swipe_def swipe_begin_def swipe_timeout_def Let_def)

lemma swipe_fields:
  "cats (swipe d s) = cats s"
  "currentIndex (swipe d s) = currentIndex s + 1"
  "loading (swipe d s) = loading s"
  "viewMode (swipe d s) = viewMode s"
  "exitDirection (swipe d s) = None"
  "history (swipe d s) =
     history s @ [\<lparr>cat = index (cats s) (currentIndex s), action = action_of d\<rparr>]"
  "likedCats (swipe d s) =
     (if d = DirRight then likedCats s @ [index (cats s) (currentIndex s)] else likedCats s)"
  by (simp_all add: swipe_eq)

lemma resetApp_eq: "resetApp s = s\<lparr>likedCats := [], currentIndex := 0, loading := True\<rparr>"
  by (simp add: resetApp_def fetch_begin_def)

lemma fetch_done_fields:
  "currentIndex (fetch_done r s) = currentIndex s"
  "likedCats (fetch_done r s) = likedCats s"
  "history (fetch_done r s) = history s"
  "loading (fetch_done r s) = False"
  "viewMode (fetch_done r s) = viewMode s"
  "exitDirection (fetch_done r s) = exitDirection s"
  by (simp_all add: fetch_done_def Let_def split: sum.splits)

lemma filter_ids_defined:
  "None \<notin> set xs \<Longrightarrow> filter_ids (Some l) xs = Inr (filter (other_id l) xs)"
proof (induction xs)
  case Nil
  then show ?case by simp
next
  case (Cons x xs)
  then obtain c where "x = Some c" by (cases x) auto
  with Cons show ?case by (simp add: other_id_def)
qed

lemma other_id_eq: "other_id l = (\<lambda>x. map_option x_id x \<noteq> Some (x_id l))"
  by (rule ext) (simp add: other_id_def)

lemma undoLast_effective:
  assumes "history s \<noteq> []" "currentIndex s \<noteq> 0"
  shows "undoLast s =
     (case (if action (last (history s)) = Like
            then filter_ids (cat (last (history s))) (likedCats s)
            else Inr (likedCats s)) of
        Inl e \<Rightarrow> Inl e
      | Inr liked \<Rightarrow>
          Inr (s\<lparr>currentIndex := currentIndex s - 1, likedCats := liked,
                 history := butlast (history s)\<rparr>))"
  using assms by (simp add: undoLast_def Let_def)

lemma undoLast_cursor:
  assumes "undoLast s = Inr u"
  shows "u = s \<or> currentIndex u = currentIndex s - 1"
proof (cases "history s = [] \<or> currentIndex s = 0")
  case True
  with assms show ?thesis by (auto simp: undoLast_def)
next
  case False
  then have ne: "history s \<noteq> []" "currentIndex s \<noteq> 0" by auto
  from assms show ?thesis
    by (auto simp: undoLast_effective[OF ne] split: sum.splits)
qed

lemma action_of_direction_of: "action_of (direction_of a) = a"
  by (cases a) (simp_all add: action_of_def direction_of_def)

lemma direction_of_right: "direction_of a = DirRight \<longleftrightarrow> a = Like"
  by (simp add: direction_of_def)

lemma map_filter_snoc:
  "List.map_filter f (xs @ [x]) =
     List.map_filter f xs @ (case f x of None \<Rightarrow> [] | Some y \<Rightarrow> [y])"
  by (simp add: map_filter_def split: option.splits)

lemma undoLast_cases:
  assumes "undoLast s = Inr s'"
  obtains (noop) "s' = s"
  | (pop) liked where "history s \<noteq> []" "currentIndex s \<noteq> 0"
      "s' = s\<lparr>currentIndex := currentIndex s - 1, likedCats := liked,
              history := butlast (history s)\<rparr>"
proof (cases "history s = [] \<or> currentIndex s = 0")
  case True
  with assms have "s' = s" by (auto simp: undoLast_def)
  then show ?thesis by (rule noop)
next
  case False
  then have ne: "history s \<noteq> []" "currentIndex s \<noteq> 0" by auto
  from assms obtain liked where
    "s' = s\<lparr>currentIndex := currentIndex s - 1, likedCats := liked,
            history := butlast (history s)\<rparr>"
    by (auto simp: undoLast_effective[OF ne] split: sum.splits)
  with ne show ?thesis by (rule pop)
qed

lemma swipe_begin_fields:
  "history (fst (swipe_begin d s)) =
     history s @ [\<lparr>cat = index (cats s) (currentIndex s), action = action_of d\<rparr>]"
  "currentIndex (fst (swipe_begin d s)) = currentIndex s"
  "snd (swipe_begin d s) = (d, index (cats s) (currentIndex s))"
  by (simp_all add: swipe_begin_def Let_def)

lemma swipe_timeout_fields:
  "history (swipe_timeout k s) = history s"
  "currentIndex (swipe_timeout k s) = currentIndex s + 1"
  by (simp_all add: swipe_timeout_def Let_def)

lemma play_append:
  "play (xs @ ys) a = (case play xs a of None \<Rightarrow> None | Some a' \<Rightarrow> play ys a')"
  by (induction xs arbitrary: a) (auto split: sum.splits)

section \<open>Entries below the cursor are never popped\<close>

lemma keeps_fire:
  assumes k: "keeps h a" and f: "fire e a = Inr a'"
  shows "keeps h a'"
proof -
  obtain s ts where a: "a = (s, ts)" by (cases a)
  from k a have pre: "prefix h (history s)" and nn: "0 \<le> currentIndex s"
    and len: "length h + nat (currentIndex s) + length ts \<le> length (history s)"
    by (auto simp: keeps_def)
  show ?thesis
  proof (cases e)
    case (Swipe d)
    with f a have "a' = (fst (swipe_begin d s), ts @ [snd (swipe_begin d s)])"
      by (auto simp: case_prod_beta)
    with pre nn len show ?thesis
      by (simp add: keeps_def swipe_begin_fields)
  next
    case Timer
    show ?thesis
    proof (cases ts)
      case Nil
      with f a Timer k show ?thesis by simp
    next
      case (Cons c r)
      with f a Timer have "a' = (swipe_timeout c s, r)" by simp
      moreover have "nat (currentIndex s + 1) = Suc (nat (currentIndex s))" using nn by simp
      ultimately show ?thesis using pre nn len Cons
        by (simp add: keeps_def swipe_timeout_fields)
    qed
  next
    case Undo
    with f a obtain s' where u: "undoLast s = Inr s'" and a': "a' = (s', ts)"
      by (auto split: sum.splits)
    from u show ?thesis
    proof (cases rule: undoLast_cases)
      case noop
      with k a a' show ?thesis by simp
    next
      case (pop liked)
      from pop(2) nn have pos: "0 < currentIndex s" by simp
      from pre obtain t where t: "history s = h @ t" by (auto simp: prefix_def)
      with len pos have "t \<noteq> []" by auto
      with t have "butlast (history s) = h @ butlast t" by (simp add: butlast_append)
      then have "prefix h (butlast (history s))" by simp
      with pos len show ?thesis by (auto simp: keeps_def a' pop(3))
    qed
  next
    case Reset
    with f a pre len show ?thesis by (auto simp: keeps_def resetApp_eq)
  next
    case (FetchDone r)
    with f a pre nn len show ?thesis by (auto simp: keeps_def fetch_done_fields)
  next
    case ToggleView
    with f a pre nn len show ?thesis by (auto simp: keeps_def toggleView_def)
  qed
qed

lemma keeps_play: "keeps h a \<Longrightarrow> play es a = Some a' \<Longrightarrow> keeps h a'"
proof (induction es arbitrary: a)
  case Nil
  then show ?case by simp
next
  case (Cons e es)
  then show ?case by (auto split: if_splits sum.splits dest: keeps_fire)
qed

section \<open>The history and the cursor\<close>

lemma booked_fire:
  assumes k: "booked a" and f: "fire e a = Inr a'"
  shows "booked a'"
proof -
  obtain s ts where a: "a = (s, ts)" by (cases a)
  from k a have nn: "0 \<le> currentIndex s"
    and len: "currentIndex s + int (length ts) \<le> int (length (history s))"
    by (auto simp: booked_def)
  show ?thesis
  proof (cases e)
    case (Swipe d)
    with f a have "a' = (fst (swipe_begin d s), ts @ [snd (swipe_begin d s)])"
      by (auto simp: case_prod_beta)
    with nn len show ?thesis
      by (simp add: booked_def swipe_begin_fields)
  next
    case Timer
    show ?thesis
    proof (cases ts)
      case Nil
      with f a Timer k show ?thesis by simp
    next
      case (Cons c r)
      with f a Timer have "a' = (swipe_timeout c s, r)" by simp
      then show ?thesis using nn len Cons
        by (simp add: booked_def swipe_timeout_fields)
    qed
  next
    case Undo
    with f a obtain s' where u: "undoLast s = Inr s'" and a': "a' = (s', ts)"
      by (auto split: sum.splits)
    from u show ?thesis
    proof (cases rule: undoLast_cases)
      case noop
      with k a a' show ?thesis by simp
    next
      case (pop liked)
      from pop(1) have "int (length (butlast (history s))) = int (length (history s)) - 1"
        by (cases "history s") auto
      with pop(2) nn len show ?thesis by (simp add: booked_def a' pop(3))
    qed
  next
    case Reset
    with f a nn len show ?thesis by (auto simp: booked_def resetApp_eq)
  next
    case (FetchDone r)
    with f a nn len show ?thesis by (auto simp: booked_def fetch_done_fields)
  next
    case ToggleView
    with f a nn len show ?thesis by (auto simp: booked_def toggleView_def)
  qed
qed

lemma balanced_fire:
  assumes k: "balanced a" and f: "fire e a = Inr a'" and nr: "e \<noteq> Reset"
  shows "balanced a'"
proof -
  obtain s ts where a: "a = (s, ts)" by (cases a)
  from k a have len: "int (length (history s)) = currentIndex s + int (length ts)"
    by (auto simp: balanced_def)
  show ?thesis
  proof (cases e)
    case (Swipe d)
    with f a have "a' = (fst (swipe_begin d s), ts @ [snd (swipe_begin d s)])"
      by (auto simp: case_prod_beta)
    with len show ?thesis
      by (simp add: balanced_def swipe_begin_fields)
  next
    case Timer
    show ?thesis
    proof (cases ts)
      case Nil
      with f a Timer k show ?thesis by simp
    next
      case (Cons c r)
      with f a Timer have "a' = (swipe_timeout c s, r)" by simp
      then show ?thesis using len Cons
        by (simp add: balanced_def swipe_timeout_fields)
    qed
  next
    case Undo
    with f a obtain s' where u: "undoLast s = Inr s'" and a': "a' = (s', ts)"
      by (auto split: sum.splits)
    from u show ?thesis
    proof (cases rule: undoLast_cases)
      case noop
      with k a a' show ?thesis by simp
    next
      case (pop liked)
      from pop(1) have "int (length (butlast (history s))) = int (length (history s)) - 1"
        by (cases "history s") auto
      with len show ?thesis by (simp add: balanced_def a' pop(3))
    qed
  next
    case Reset
    with nr show ?thesis by simp
  next
    case (FetchDone r)
    with f a len show ?thesis by (auto simp: balanced_def fetch_done_fields)
  next
    case ToggleView
    with f a len show ?thesis by (auto simp: balanced_def toggleView_def)
  qed
qed

lemma booked_play: "booked a \<Longrightarrow> play es a = Some a' \<Longrightarrow> booked a'"
proof (induction es arbitrary: a)
  case Nil
  then show ?case by simp
next
  case (Cons e es)
  then show ?case by (auto split: if_splits sum.splits dest: booked_fire)
qed

lemma balanced_play:
  "balanced a \<Longrightarrow> play es a = Some a' \<Longrightarrow> Reset \<notin> set es \<Longrightarrow> balanced a'"
proof (induction es arbitrary: a)
  case Nil
  then show ?case by simp
next
  case (Cons e es)
  from Cons.prems obtain b where b: "fire e a = Inr b" "play es b = Some a'"
    by (auto split: if_splits sum.splits)
  from Cons.prems have "e \<noteq> Reset" "Reset \<notin> set es" by auto
  with Cons.IH[OF balanced_fire[OF Cons.prems(1) b(1)] b(2)] show ?case by simp
qed

section \<open>The invariant of the reachable states\<close>

lemma likes_append: "likes (xs @ ys) = likes xs @ likes ys"
  by (simp add: likes_def)

lemma likes_single: "likes [e] = (if action e = Like then [cat e] else [])"
  by (simp add: likes_def)

lemma set_likes: "set (likes es) \<subseteq> set (map cat es)"
  by (auto simp: likes_def)

lemma subseq_set: "subseq xs ys \<Longrightarrow> set xs \<subseteq> set ys"
  by (auto elim: list_emb_set)

lemma subseq_nil: "subseq xs [] \<Longrightarrow> xs = []"
  by (rule list_emb_Nil2)

lemma subseq_length: "subseq xs ys \<Longrightarrow> length xs \<le> length ys"
  by (rule list_emb_length)

lemma live_zero: "currentIndex s = 0 \<Longrightarrow> live s = []"
  by (simp add: live_def)

lemma inv_initial: "session_inv initial"
  by (simp add: session_inv_def initial_def live_def likes_def)

lemma live_swipe:
  assumes "0 \<le> currentIndex s" "nat (currentIndex s) \<le> length (history s)"
  shows "live (swipe d s) =
     live s @ [\<lparr>cat = index (cats s) (currentIndex s), action = action_of d\<rparr>]"
proof -
  have "nat (currentIndex s + 1) = Suc (nat (currentIndex s))" using assms by simp
  then show ?thesis using assms by (simp add: live_def swipe_eq)
qed

lemma inv_swipe:
  assumes i: "session_inv s" and en: "action_buttons s"
  shows "session_inv (swipe d s)"
proof -
  let ?n = "nat (currentIndex s)"
  let ?t = "swipe d s"
  from i have nn: "0 \<le> currentIndex s" and hl: "?n \<le> length (history s)"
    by (auto simp: session_inv_def)
  from en have lt: "currentIndex s < int (length (cats s))" and nl: "\<not> loading s"
    by (auto simp: action_buttons_def)
  from nn lt have n_lt: "?n < length (cats s)" by simp
  have ix: "index (cats s) (currentIndex s) = Some (cats s ! ?n)"
    using nn lt by (simp add: index_def)
  have lv: "live ?t = live s @ [\<lparr>cat = Some (cats s ! ?n), action = action_of d\<rparr>]"
    using live_swipe[OF nn hl] ix by simp
  have sn: "nat (currentIndex s + 1) = Suc ?n" using nn by simp
  have m: "map cat (live ?t) = map Some (take (nat (currentIndex ?t)) (cats ?t))"
    using i n_lt by (simp add: lv swipe_fields sn take_Suc_conv_app_nth session_inv_def)
  have lk: "likes (live ?t) =
      (if d = DirRight then likes (live s) @ [Some (cats s ! ?n)] else likes (live s))"
    by (simp add: lv likes_append likes_single action_of_def)
  have sub: "subseq (likedCats ?t) (likes (live ?t))"
    using i by (simp add: lk swipe_fields ix session_inv_def)
  have dis: "distinct (map x_id (cats ?t)) \<longrightarrow> likedCats ?t = likes (live ?t)"
    using i by (simp add: lk swipe_fields ix session_inv_def)
  have rest: "0 \<le> currentIndex ?t" "currentIndex ?t \<le> int (length (cats ?t))"
    "nat (currentIndex ?t) \<le> length (history ?t)"
    "loading ?t \<longrightarrow> currentIndex ?t = 0" "exitDirection ?t = None"
    using nn lt hl nl by (simp_all add: swipe_fields)
  show ?thesis unfolding session_inv_def using rest m sub dis by blast
qed

text \<open>What the invariant says about the entry on top of the history.\<close>

lemma live_nonempty:
  assumes "session_inv s" "currentIndex s \<noteq> 0"
  shows "live s \<noteq> []" "last (live s) = last (history s)" "history s \<noteq> []"
    "live s = butlast (live s) @ [last (history s)]"
    "cat (last (history s)) = Some (cats s ! (nat (currentIndex s) - 1))"
    "map cat (butlast (live s)) = map Some (take (nat (currentIndex s) - 1) (cats s))"
proof -
  let ?n = "nat (currentIndex s)"
  from assms have pos: "0 < ?n" and hl: "?n \<le> length (history s)"
    and nl: "?n \<le> length (cats s)"
    and m: "map cat (live s) = map Some (take ?n (cats s))"
    by (auto simp: session_inv_def)
  from pos hl show ne: "history s \<noteq> []" by auto
  from pos hl have len: "length (live s) = ?n" by (simp add: live_def)
  with pos show lne: "live s \<noteq> []" by auto
  from pos hl show ll: "last (live s) = last (history s)"
    by (simp add: live_def last_drop)
  from lne ll show "live s = butlast (live s) @ [last (history s)]"
    by (metis append_butlast_last_id)
  have "map cat (live s) ! (?n - 1) = map Some (take ?n (cats s)) ! (?n - 1)"
    using m by simp
  moreover have "map cat (live s) ! (?n - 1) = cat (last (live s))"
    using lne len pos by (simp add: last_conv_nth)
  ultimately show "cat (last (history s)) = Some (cats s ! (?n - 1))"
    using pos nl ll by simp
  have "map cat (butlast (live s)) = butlast (map cat (live s))"
    by (rule map_butlast)
  also have "\<dots> = butlast (map Some (take ?n (cats s)))"
    using m by simp
  also have "\<dots> = map Some (butlast (take ?n (cats s)))"
    by (rule map_butlast[symmetric])
  also have "butlast (take ?n (cats s)) = take (?n - 1) (cats s)"
    using nl by (rule butlast_take)
  finally show "map cat (butlast (live s)) = map Some (take (?n - 1) (cats s))" .
qed

lemma live_undo:
  assumes "history s \<noteq> []" "0 < currentIndex s"
  shows "live (s\<lparr>currentIndex := currentIndex s - 1, likedCats := l,
                 history := butlast (history s)\<rparr>) = butlast (live s)"
proof -
  have "nat (currentIndex s - 1) = nat (currentIndex s) - 1" by simp
  moreover have "length (history s) - 1 - (nat (currentIndex s) - 1)
      = length (history s) - nat (currentIndex s)"
    using assms by (cases "history s") auto
  ultimately show ?thesis
    by (simp add: live_def butlast_drop)
qed

lemma inv_all_defined:
  assumes "session_inv s"
  shows "None \<notin> set (likedCats s)"
proof -
  from assms have "set (likedCats s) \<subseteq> set (likes (live s))"
    by (simp add: session_inv_def subseq_set)
  also have "\<dots> \<subseteq> set (map cat (live s))" by (rule set_likes)
  also have "\<dots> = set (map Some (take (nat (currentIndex s)) (cats s)))"
    using assms by (simp add: session_inv_def)
  finally show ?thesis by auto
qed

text \<open>In a reachable state \<open>undoLast\<close> does not throw, and this is its result.\<close>

lemma undoLast_inv_result:
  assumes i: "session_inv s" and nz: "currentIndex s \<noteq> 0"
  shows "undoLast s = Inr (s\<lparr>currentIndex := currentIndex s - 1,
     likedCats := (if action (last (history s)) = Like
         then filter (other_id (cats s ! (nat (currentIndex s) - 1))) (likedCats s)
         else likedCats s),
     history := butlast (history s)\<rparr>)"
proof -
  note ln = live_nonempty[OF i nz]
  show ?thesis
    using filter_ids_defined[OF inv_all_defined[OF i], of "cats s ! (nat (currentIndex s) - 1)"]
    by (simp add: undoLast_effective[OF ln(3) nz] ln(5))
qed

text \<open>
  With distinct identifiers, the filter of \<open>undoLast\<close> removes nothing from the likes
  that came before the undone one.
\<close>

lemma filter_likes_distinct:
  assumes d: "distinct (map x_id cs)" and n: "n < length cs"
    and m: "map cat pre = map Some (take n cs)"
  shows "filter (other_id (cs ! n)) (likes pre) = likes pre"
proof -
  have "\<forall>x \<in> set (likes pre). other_id (cs ! n) x"
  proof
    fix x assume "x \<in> set (likes pre)"
    then have "x \<in> set (map cat pre)" using set_likes by blast
    then have "x \<in> Some ` set (take n cs)" using m by simp
    then obtain c where c: "x = Some c" "c \<in> set (take n cs)" by auto
    then obtain i where i: "i < n" "c = cs ! i"
      using n by (auto simp: in_set_conv_nth)
    from i n have "i < length (map x_id cs)" "n < length (map x_id cs)" "i \<noteq> n" by auto
    with d have "(map x_id cs ! i = map x_id cs ! n) = (i = n)"
      by (intro nth_eq_iff_index_eq)
    with i n have "x_id (cs ! i) \<noteq> x_id (cs ! n)" by simp
    with c i show "other_id (cs ! n) x" by (simp add: other_id_def)
  qed
  then show ?thesis by (simp add: filter_True)
qed

lemma inv_undo:
  assumes i: "session_inv s" and u: "undoLast s = Inr s'"
  shows "session_inv s'"
proof (cases "currentIndex s = 0")
  case True
  with u i show ?thesis by (simp add: undoLast_def)
next
  case nz: False
  let ?n = "nat (currentIndex s)"
  let ?c = "cats s ! (?n - 1)"
  let ?e = "last (history s)"
  note ln = live_nonempty[OF i nz]
  from i nz have pos: "0 < currentIndex s" and hl: "?n \<le> length (history s)"
    and cl: "currentIndex s \<le> int (length (cats s))" and nl: "\<not> loading s"
    and ex: "exitDirection s = None"
    and sub: "subseq (likedCats s) (likes (live s))"
    and dis: "distinct (map x_id (cats s)) \<longrightarrow> likedCats s = likes (live s)"
    by (auto simp: session_inv_def)
  from pos cl have n1: "?n - 1 < length (cats s)" by auto
  define l' where
    "l' = (if action ?e = Like then filter (other_id ?c) (likedCats s) else likedCats s)"
  have s': "s' = s\<lparr>currentIndex := currentIndex s - 1, likedCats := l',
     history := butlast (history s)\<rparr>"
    using u undoLast_inv_result[OF i nz] by (simp add: l'_def)
  have lv: "live s' = butlast (live s)"
    unfolding s' by (rule live_undo[OF ln(3) pos])
  have f: "cats s' = cats s" "currentIndex s' = currentIndex s - 1" "loading s' = loading s"
    "exitDirection s' = exitDirection s" "likedCats s' = l'" "history s' = butlast (history s)"
    by (simp_all add: s')
  have nm: "nat (currentIndex s - 1) = ?n - 1" by simp
  have lk: "likes (live s) =
      likes (butlast (live s)) @ (if action ?e = Like then [Some ?c] else [])"
    by (subst ln(4)) (simp add: likes_append likes_single ln(5))
  have sub': "subseq l' (likes (butlast (live s)))"
  proof (cases "action ?e = Like")
    case True
    have "\<not> other_id ?c (Some ?c)" by (simp add: other_id_def)
    then have "filter (other_id ?c) (likes (live s)) =
        filter (other_id ?c) (likes (butlast (live s)))"
      using True by (simp add: lk)
    moreover have "subseq (filter (other_id ?c) (likedCats s))
        (filter (other_id ?c) (likes (live s)))"
      using sub by (rule subseq_filter)
    ultimately have "subseq (filter (other_id ?c) (likedCats s))
        (filter (other_id ?c) (likes (butlast (live s))))"
      by simp
    moreover have "subseq (filter (other_id ?c) (likes (butlast (live s))))
        (likes (butlast (live s)))"
      by (rule subseq_filter_left)
    ultimately have "subseq (filter (other_id ?c) (likedCats s)) (likes (butlast (live s)))"
      by (rule subseq_order.trans)
    then show ?thesis using True by (simp add: l'_def)
  next
    case False
    then show ?thesis using sub lk by (simp add: l'_def)
  qed
  have dis': "distinct (map x_id (cats s)) \<longrightarrow> l' = likes (butlast (live s))"
  proof
    assume d: "distinct (map x_id (cats s))"
    with dis have eq: "likedCats s = likes (live s)" by simp
    show "l' = likes (butlast (live s))"
    proof (cases "action ?e = Like")
      case True
      have "filter (other_id ?c) (likes (butlast (live s))) = likes (butlast (live s))"
        using filter_likes_distinct[OF d n1 ln(6)] .
      then show ?thesis using True by (simp add: l'_def eq lk other_id_def)
    next
      case False
      then show ?thesis by (simp add: l'_def eq lk)
    qed
  qed
  show ?thesis
    unfolding session_inv_def f lv nm
    using pos hl cl nl ex ln(6) sub' dis' by auto
qed

lemma inv_reset: "session_inv s \<Longrightarrow> session_inv (resetApp s)"
  by (simp add: session_inv_def resetApp_eq live_def likes_def)

lemma inv_toggle: "session_inv s \<Longrightarrow> session_inv (toggleView s)"
  by (simp add: session_inv_def toggleView_def live_def)

lemma inv_fetch_done:
  assumes "session_inv s" "loading s"
  shows "session_inv (fetch_done r s)"
proof -
  from assms have z: "currentIndex s = 0" by (simp add: session_inv_def)
  with assms have "likedCats s = []"
    by (simp add: session_inv_def live_zero likes_def subseq_nil)
  with assms z show ?thesis
    by (cases r) (simp_all add: session_inv_def fetch_done_def try_block_def live_def likes_def)
qed

lemma reached_inv: "reached_in_turn s \<Longrightarrow> session_inv s"
proof (induction rule: reached_in_turn.induct)
  case start
  show ?case by (rule inv_initial)
next
  case (swiped s d)
  then show ?case by (simp add: inv_swipe)
next
  case (undone s s')
  then show ?case by (simp add: inv_undo)
next
  case (reset s)
  then show ?case by (simp add: inv_reset)
next
  case (fetched s r)
  then show ?case by (simp add: inv_fetch_done)
next
  case (toggled s)
  then show ?case by (simp add: inv_toggle)
qed

text \<open>
  Operations carried out in turn are runs of the application: each swipe is the tap
  followed by its timer.
\<close>

lemma play_snoc:
  assumes "play es a = Some b" "enabled e b" "fire e b = Inr c"
  shows "play (es @ [e]) a = Some c"
  using assms by (simp add: play_append)

lemma play_swipe:
  assumes "action_buttons s"
  shows "play [Swipe d, Timer] (s, []) = Some (swipe d s, [])"
  using assms by (simp add: swipe_def case_prod_beta)

lemma reached_in_turn_play:
  "reached_in_turn s \<Longrightarrow> \<exists>es. play es (initial, []) = Some (s, [])"
proof (induction rule: reached_in_turn.induct)
  case start
  have "play [] (initial, []) = Some (initial, [])" by simp
  then show ?case by blast
next
  case (swiped s d)
  then obtain es where "play es (initial, []) = Some (s, [])" by blast
  with play_swipe[OF swiped(2), of d]
  have "play (es @ [Swipe d, Timer]) (initial, []) = Some (swipe d s, [])"
    by (simp add: play_append)
  then show ?case by blast
next
  case (undone s s')
  then obtain es where "play es (initial, []) = Some (s, [])" by blast
  from play_snoc[OF this, of Undo "(s', [])"] undone(2,3)
  have "play (es @ [Undo]) (initial, []) = Some (s', [])" by simp
  then show ?case by blast
next
  case (reset s)
  then obtain es where "play es (initial, []) = Some (s, [])" by blast
  from play_snoc[OF this, of Reset "(resetApp s, [])"] reset(2)
  have "play (es @ [Reset]) (initial, []) = Some (resetApp s, [])" by simp
  then show ?case by blast
next
  case (fetched s r)
  then obtain es where "play es (initial, []) = Some (s, [])" by blast
  from play_snoc[OF this, of "FetchDone r" "(fetch_done r s, [])"] fetched(2)
  have "play (es @ [FetchDone r]) (initial, []) = Some (fetch_done r s, [])" by simp
  then show ?case by blast
next
  case (toggled s)
  then obtain es where "play es (initial, []) = Some (s, [])" by blast
  from play_snoc[OF this, of ToggleView "(toggleView s, [])"] toggled(2)
  have "play (es @ [ToggleView]) (initial, []) = Some (toggleView s, [])" by simp
  then show ?case by blast
qed

section \<open>The concrete sessions, evaluated\<close>

lemmas cat_defs = catA_def catB_def catC_def catA'_def

lemmas op_defs = initial_def fetch_done_def try_block_def normalise_def js_or_def
  swipe_eq index_def action_of_def

lemmas step_defs = initial_def fetch_done_def try_block_def normalise_def js_or_def
  swipe_begin_def swipe_timeout_def index_def action_of_def undoLast_def resetApp_def
  fetch_begin_def action_buttons_def summary_screen_def Let_def

lemma one_loaded_eq:
  "one_loaded = \<lparr>cats = [catA], likedCats = [], currentIndex = 0, loading = False,
     exitDirection = None, viewMode = SwipeMode, history = []\<rparr>"
  by (simp add: one_loaded_def op_defs cat_defs)

lemma one_played_eq:
  "one_played = \<lparr>cats = [catA], likedCats = [Some catA], currentIndex = 1, loading = False,
     exitDirection = None, viewMode = SwipeMode, history = [entryA]\<rparr>"
  by (simp add: one_played_def one_loaded_eq swipe_eq index_def action_of_def entryA_def)

lemma reached_one_loaded: "reached_in_turn one_loaded"
  using reached_in_turn.fetched[OF reached_in_turn.start, of "Batch [catA]"]
  by (simp add: one_loaded_def initial_def)

lemma reached_one_played: "reached_in_turn one_played"
  using reached_in_turn.swiped[OF reached_one_loaded, of DirRight]
  by (simp add: one_played_def) (simp add: one_loaded_eq action_buttons_def)

lemma summary_one_played: "summary_screen one_played"
  by (simp add: one_played_eq summary_screen_def)

lemma play_one_played:
  "play [FetchDone (Batch [catA]), Swipe DirRight, Timer] (initial, []) = Some (one_played, [])"
  by (simp add: one_played_eq) (simp add: step_defs entryA_def catA_def)

lemma after_reset_eq:
  "after_reset = \<lparr>cats = [catA], likedCats = [], currentIndex = 0, loading = True,
     exitDirection = None, viewMode = SwipeMode, history = [entryA]\<rparr>"
  by (simp add: after_reset_def one_played_eq resetApp_eq)

lemma play_after_reset:
  "play [FetchDone (Batch [catB, catC]), Swipe DirRight, Timer, Undo, Undo] (after_reset, [])
     = Some (later, [])"
  by (simp add: after_reset_eq later_def) (simp add: step_defs entryA_def cat_defs)

lemma second_session_eq:
  "second_session = \<lparr>cats = [catB], likedCats = [], currentIndex = 0, loading = False,
     exitDirection = None, viewMode = SwipeMode, history = [entryA]\<rparr>"
  by (simp add: second_session_def one_played_eq resetApp_eq fetch_done_def try_block_def
      normalise_def js_or_def catB_def)

lemma play_second_session:
  "play [FetchDone (Batch [catA]), Swipe DirRight, Timer, Reset, FetchDone (Batch [catB])]
     (initial, []) = Some (second_session, [])"
  by (simp add: second_session_eq) (simp add: step_defs entryA_def cat_defs)

lemma three_loaded_eq:
  "three_loaded = \<lparr>cats = [catA, catB, catC], likedCats = [], currentIndex = 0,
     loading = False, exitDirection = None, viewMode = SwipeMode, history = []\<rparr>"
  by (simp add: three_loaded_def op_defs cat_defs)

lemma three_liked_eq:
  "three_liked = \<lparr>cats = [catA, catB, catC], likedCats = [Some catA], currentIndex = 1,
     loading = False, exitDirection = None, viewMode = SwipeMode, history = [entryA]\<rparr>"
  by (simp add: three_liked_def three_loaded_eq swipe_eq index_def action_of_def entryA_def)

lemma reached_three_loaded: "reached_in_turn three_loaded"
  using reached_in_turn.fetched[OF reached_in_turn.start, of "Batch [catA, catB, catC]"]
  by (simp add: three_loaded_def initial_def)

lemma reached_three_liked: "reached_in_turn three_liked"
  using reached_in_turn.swiped[OF reached_three_loaded, of DirRight]
  by (simp add: three_liked_def) (simp add: three_loaded_eq action_buttons_def)

lemma dup_loaded_eq:
  "dup_loaded = \<lparr>cats = [catA, catA', catC], likedCats = [], currentIndex = 0,
     loading = False, exitDirection = None, viewMode = SwipeMode, history = []\<rparr>"
  by (simp add: dup_loaded_def op_defs cat_defs)

lemma dup_liked_eq:
  "dup_liked = \<lparr>cats = [catA, catA', catC], likedCats = [Some catA, Some catA'],
     currentIndex = 2, loading = False, exitDirection = None, viewMode = SwipeMode,
     history = [entryA, \<lparr>cat = Some catA', action = Like\<rparr>]\<rparr>"
  by (simp add: dup_liked_def dup_loaded_eq swipe_eq index_def action_of_def entryA_def)

lemma dup_undone_eq:
  "dup_undone = \<lparr>cats = [catA, catA', catC], likedCats = [],
     currentIndex = 1, loading = False, exitDirection = None, viewMode = SwipeMode,
     history = [entryA]\<rparr>"
  by (simp add: dup_undone_def dup_liked_eq)

lemma undo_dup_liked: "undoLast dup_liked = Inr dup_undone"
  by (simp add: dup_undone_eq) (simp add: dup_liked_eq undoLast_def cat_defs)

lemma reached_dup_liked: "reached_in_turn dup_liked"
proof -
  have 1: "reached_in_turn dup_loaded"
    using reached_in_turn.fetched[OF reached_in_turn.start, of "Batch [catA, catA', catC]"]
    by (simp add: dup_loaded_def initial_def)
  have 2: "reached_in_turn (swipe DirRight dup_loaded)"
    using reached_in_turn.swiped[OF 1, of DirRight]
    by (simp add: dup_loaded_eq action_buttons_def)
  have "action_buttons (swipe DirRight dup_loaded)"
    by (simp add: dup_loaded_eq action_buttons_def swipe_fields)
  then show ?thesis
    using reached_in_turn.swiped[OF 2, of DirRight]
    by (simp add: dup_liked_def)
qed

lemma reached_dup_undone: "reached_in_turn dup_undone"
  using reached_in_turn.undone[OF reached_dup_liked _ undo_dup_liked]
  by (simp add: dup_liked_eq action_buttons_def)

lemma play_double_tapped:
  "play [FetchDone (Batch [catA]), Swipe DirRight, Swipe DirRight, Timer, Timer] (initial, [])
     = Some (double_tapped, [])"
  by (simp add: double_tapped_def) (simp add: step_defs entryA_def catA_def)

lemma play_reset_mid_swipe:
  "play [FetchDone (Batch [catA]), Swipe DirRight, Swipe DirRight, Timer, Reset] (initial, [])
     = Some (reset_mid_swipe, [(DirRight, Some catA)])"
  by (simp add: reset_mid_swipe_def) (simp add: step_defs entryA_def catA_def)

lemma play_old_entry_on_top:
  "play [Timer, FetchDone (Batch [catB, catC])] (reset_mid_swipe, [(DirRight, Some catA)])
     = Some (old_entry_on_top, [])"
  by (simp add: reset_mid_swipe_def old_entry_on_top_def)
     (simp add: step_defs entryA_def cat_defs)

lemma play_old_entry_popped:
  "play [Undo] (old_entry_on_top, []) = Some (old_entry_popped, [])"
  by (simp add: old_entry_on_top_def old_entry_popped_def)
     (simp add: step_defs entryA_def cat_defs)

lemma play_reset_mid_swipe_whole:
  "play [FetchDone (Batch [catA]), Swipe DirRight, Swipe DirRight, Timer, Reset, Timer,
         FetchDone (Batch [catB, catC]), Undo] (initial, [])
     = Some (old_entry_popped, [])"
proof -
  have "play ([FetchDone (Batch [catA]), Swipe DirRight, Swipe DirRight, Timer, Reset] @
      ([Timer, FetchDone (Batch [catB, catC])] @ [Undo])) (initial, [])
     = Some (old_entry_popped, [])"
    by (simp only: play_append play_reset_mid_swipe play_old_entry_on_top
        play_old_entry_popped option.case)
  then show ?thesis by simp
qed

lemma play_quickly_undone:
  "play [FetchDone (Batch [catA, catB, catC]), Swipe DirRight, Timer, Swipe DirRight, Undo,
         Timer] (initial, [])
     = Some (quickly_undone, [])"
  by (simp add: quickly_undone_def) (simp add: step_defs entryA_def cat_defs)

section \<open>Properties of the session operations\<close>

subsection \<open>reset\<close>

text \<open>
  C1, as the code has it: for every state, \<open>resetApp\<close> sets the cursor to \<open>0\<close>, empties the
  liked cats and raises the loading flag, and touches nothing else; in particular the
  history keeps every entry, also once the fresh batch has arrived (or the fetch has
  failed).
\<close>

theorem reset_effect:
  "resetApp s = s\<lparr>likedCats := [], currentIndex := 0, loading := True\<rparr> \<and>
   (\<forall>r. currentIndex (fetch_done r (resetApp s)) = 0 \<and>
        likedCats (fetch_done r (resetApp s)) = [] \<and>
        history (fetch_done r (resetApp s)) = history s)"
  by (simp add: resetApp_eq fetch_done_fields)

text \<open>The same at the session that has liked its only cat.\<close>

theorem reset_effect_witness:
  "currentIndex (resetApp one_played) = 0 \<and> likedCats (resetApp one_played) = [] \<and>
   loading (resetApp one_played) \<and>
   history (fetch_done (Batch [catB]) (resetApp one_played)) = history one_played"
proof -
  note t = reset_effect[of one_played]
  from t[THEN conjunct1] have
    "resetApp one_played = one_played\<lparr>likedCats := [], currentIndex := 0, loading := True\<rparr>" .
  moreover from t[THEN conjunct2] have
    "history (fetch_done (Batch [catB]) (resetApp one_played)) = history one_played" by blast
  ultimately show ?thesis by simp
qed

text \<open>
  The history is not emptied: after one like, "Start Over" is offered, and the entry of
  that like is still in the history after \<open>resetApp\<close> and after the next batch.
\<close>

theorem reset_keeps_history_example:
  "reached_in_turn one_played \<and> summary_screen one_played \<and>
   history one_played = [entryA] \<and>
   history (resetApp one_played) = [entryA] \<and>
   history (fetch_done (Batch [catB]) (resetApp one_played)) = [entryA] \<and>
   history (resetApp one_played) \<noteq> []"
  using reached_one_played summary_one_played
  by (simp add: resetApp_eq fetch_done_fields) (simp add: one_played_eq)

subsection \<open>Length of the history\<close>

text \<open>
  C2, as the code has it: in every state the application gets to, the history is at
  least as long as the cursor is high; as long as no reset is among the events that led
  to the state, its length is the cursor plus the number of swipes whose timer has not
  run yet, so it is the cursor when no timer waits. (A reset zeroes the cursor and keeps
  the history.)
\<close>

theorem history_length_cursor:
  assumes "play es (initial, []) = Some (s, ts)"
  shows "currentIndex s \<le> int (length (history s)) \<and>
         (Reset \<notin> set es \<longrightarrow> int (length (history s)) = currentIndex s + int (length ts)) \<and>
         (Reset \<notin> set es \<and> ts = [] \<longrightarrow> int (length (history s)) = currentIndex s)"
proof -
  have "booked (initial, [])" by (simp add: booked_def initial_def)
  from booked_play[OF this assms] have 1: "currentIndex s \<le> int (length (history s))"
    by (simp add: booked_def)
  have "balanced (initial, [])" by (simp add: balanced_def initial_def)
  from balanced_play[OF this assms]
  have 2: "Reset \<notin> set es \<longrightarrow> int (length (history s)) = currentIndex s + int (length ts)"
    by (simp add: balanced_def)
  from 1 2 show ?thesis by simp
qed

theorem history_length_cursor_witness:
  "play [FetchDone (Batch [catA]), Swipe DirRight, Timer] (initial, []) = Some (one_played, []) \<and>
   Reset \<notin> set [FetchDone (Batch [catA]), Swipe DirRight, Timer] \<and>
   currentIndex one_played \<le> int (length (history one_played)) \<and>
   int (length (history one_played)) = currentIndex one_played"
  using history_length_cursor[OF play_one_played] play_one_played by simp

text \<open>
  After load, like, reset and the next load, the history has one entry and the cursor
  is \<open>0\<close>.
\<close>

theorem history_longer_than_cursor_example:
  "play [FetchDone (Batch [catA]), Swipe DirRight, Timer, Reset, FetchDone (Batch [catB])]
     (initial, []) = Some (second_session, []) \<and>
   length (history second_session) = 1 \<and> currentIndex second_session = 0"
  using play_second_session by (simp add: second_session_eq)

subsection \<open>swipe\<close>

text \<open>
  C3: in a state whose cursor points into the batch, \<open>swipe\<close> appends the pair of
  \<open>cats[currentIndex]\<close> and the decision of the direction to the history, appends that cat
  to the liked cats (so adds its identifier to the liked identifiers) exactly when the
  direction is right, adds \<open>1\<close> to the cursor, and leaves the batch, the loading flag and
  the view mode alone. The exit animation flag, set during the 200 ms of the animation,
  is clear again at the end.
\<close>

theorem swipe_effect:
  assumes "0 \<le> currentIndex s" "currentIndex s < int (length (cats s))"
  shows "swipe d s =
      s\<lparr>history := history s @
           [\<lparr>cat = Some (cats s ! nat (currentIndex s)),
             action = (if d = DirRight then Like else Dislike)\<rparr>],
        likedCats := (if d = DirRight then likedCats s @ [Some (cats s ! nat (currentIndex s))]
                      else likedCats s),
        currentIndex := currentIndex s + 1,
        exitDirection := None\<rparr> \<and>
    likedIds (swipe d s) =
      (if d = DirRight then insert (x_id (cats s ! nat (currentIndex s))) (likedIds s)
       else likedIds s) \<and>
    cats (swipe d s) = cats s \<and> loading (swipe d s) = loading s \<and>
    viewMode (swipe d s) = viewMode s"
proof -
  have ix: "index (cats s) (currentIndex s) = Some (cats s ! nat (currentIndex s))"
    using assms by (simp add: index_def)
  have "likedIds (swipe d s) =
      (if d = DirRight then insert (x_id (cats s ! nat (currentIndex s))) (likedIds s)
       else likedIds s)"
    by (simp add: likedIds_def swipe_fields ix map_filter_snoc)
  then show ?thesis
    by (simp add: swipe_fields) (simp add: swipe_eq ix action_of_def)
qed

theorem swipe_effect_witness:
  "0 \<le> currentIndex dup_loaded \<and> currentIndex dup_loaded < int (length (cats dup_loaded)) \<and>
   history (swipe DirRight dup_loaded) = [entryA] \<and>
   likedCats (swipe DirRight dup_loaded) = [Some catA] \<and>
   currentIndex (swipe DirRight dup_loaded) = 1 \<and>
   likedIds (swipe DirRight dup_loaded) = {Some ''a1''} \<and>
   cats (swipe DirRight dup_loaded) = [catA, catA', catC]"
proof -
  have h1: "0 \<le> currentIndex dup_loaded" by (simp add: dup_loaded_eq)
  have h2: "currentIndex dup_loaded < int (length (cats dup_loaded))"
    by (simp add: dup_loaded_eq)
  note t = swipe_effect[OF h1 h2, of DirRight]
  from t[THEN conjunct1] have sw: "swipe DirRight dup_loaded =
      dup_loaded\<lparr>history := history dup_loaded @
           [\<lparr>cat = Some (cats dup_loaded ! nat (currentIndex dup_loaded)), action = Like\<rparr>],
        likedCats := likedCats dup_loaded @
           [Some (cats dup_loaded ! nat (currentIndex dup_loaded))],
        currentIndex := currentIndex dup_loaded + 1,
        exitDirection := None\<rparr>"
    by simp
  from t[THEN conjunct2, THEN conjunct1] have ids: "likedIds (swipe DirRight dup_loaded) =
      insert (x_id (cats dup_loaded ! nat (currentIndex dup_loaded))) (likedIds dup_loaded)"
    by simp
  have e: "likedIds dup_loaded = {}" by (simp add: likedIds_def dup_loaded_eq map_filter_def)
  have a: "history (swipe DirRight dup_loaded) = [entryA]"
    "likedCats (swipe DirRight dup_loaded) = [Some catA]"
    "currentIndex (swipe DirRight dup_loaded) = 1"
    by (subst sw, simp add: dup_loaded_eq entryA_def)+
  have b: "likedIds (swipe DirRight dup_loaded) = {Some ''a1''}"
    by (subst ids) (simp add: e, simp add: dup_loaded_eq catA_def)
  have c: "cats (swipe DirRight dup_loaded) = [catA, catA', catC]"
    using t[THEN conjunct2, THEN conjunct2, THEN conjunct1] by (simp add: dup_loaded_eq)
  from h1 h2 a b c show ?thesis by blast
qed

subsection \<open>undo followed by the same swipe\<close>

text \<open>
  C4, as the code has it: in every state that operations carried out in turn lead to,
  with a positive cursor and a batch of pairwise distinct identifiers, \<open>undoLast\<close> returns
  normally, and swiping then in the direction of the undone decision restores the
  cursor, the liked cats and the history.
\<close>

theorem undo_swipe_roundtrip:
  assumes r: "reached_in_turn s" and pos: "0 < currentIndex s"
    and d: "distinct (map x_id (cats s))"
  shows "\<exists>u. undoLast s = Inr u \<and>
      currentIndex (swipe (direction_of (action (last (history s)))) u) = currentIndex s \<and>
      likedCats (swipe (direction_of (action (last (history s)))) u) = likedCats s \<and>
      history (swipe (direction_of (action (last (history s)))) u) = history s"
proof -
  let ?n = "nat (currentIndex s)"
  let ?c = "cats s ! (?n - 1)"
  let ?e = "last (history s)"
  let ?d = "direction_of (action ?e)"
  have i: "session_inv s" using r by (rule reached_inv)
  from pos have nz: "currentIndex s \<noteq> 0" by simp
  note ln = live_nonempty[OF i nz]
  from i have cl: "currentIndex s \<le> int (length (cats s))" by (simp add: session_inv_def)
  with pos have n1: "?n - 1 < length (cats s)" by auto
  from i d have eq: "likedCats s = likes (live s)" by (simp add: session_inv_def)
  have lk: "likes (live s) =
      likes (butlast (live s)) @ (if action ?e = Like then [Some ?c] else [])"
    by (subst ln(4)) (simp add: likes_append likes_single ln(5))
  define l' where
    "l' = (if action ?e = Like then filter (other_id ?c) (likedCats s) else likedCats s)"
  define u where "u = s\<lparr>currentIndex := currentIndex s - 1, likedCats := l',
     history := butlast (history s)\<rparr>"
  have un: "undoLast s = Inr u"
    using undoLast_inv_result[OF i nz] by (simp add: u_def l'_def)
  have l'eq: "l' = likes (butlast (live s))"
    using filter_likes_distinct[OF d n1 ln(6)] by (simp add: l'_def eq lk other_id_def)
  have uf: "cats u = cats s" "currentIndex u = currentIndex s - 1" "likedCats u = l'"
    "history u = butlast (history s)"
    by (simp_all add: u_def)
  have ix: "index (cats u) (currentIndex u) = Some ?c"
  proof -
    have "nat (currentIndex s - 1) = ?n - 1" by simp
    then show ?thesis using pos cl by (simp add: uf index_def)
  qed
  have ent: "\<lparr>cat = Some ?c, action = action_of ?d\<rparr> = ?e"
    using ln(5) by (cases "last (history s)") (simp add: action_of_direction_of)
  have "currentIndex (swipe ?d u) = currentIndex s"
    by (simp add: swipe_fields uf)
  moreover have "history (swipe ?d u) = history s"
  proof -
    have "history (swipe ?d u) =
        history u @ [\<lparr>cat = index (cats u) (currentIndex u), action = action_of ?d\<rparr>]"
      by (rule swipe_fields(6))
    also have "\<dots> = history u @ [\<lparr>cat = Some ?c, action = action_of ?d\<rparr>]"
      by (simp only: ix)
    also have "\<dots> = history u @ [?e]"
      by (simp only: ent)
    also have "\<dots> = butlast (history s) @ [?e]"
      by (simp only: uf)
    also have "\<dots> = history s"
      using ln(3) by simp
    finally show ?thesis .
  qed
  moreover have "likedCats (swipe ?d u) = likedCats s"
    by (simp add: swipe_fields(7) ix direction_of_right) (simp add: uf l'eq eq lk)
  ultimately show ?thesis using un by blast
qed

theorem undo_swipe_roundtrip_witness:
  "reached_in_turn three_liked \<and>
   0 < currentIndex three_liked \<and> distinct (map x_id (cats three_liked)) \<and>
   (\<exists>u. undoLast three_liked = Inr u \<and>
      currentIndex (swipe (direction_of (action (last (history three_liked)))) u)
        = currentIndex three_liked \<and>
      likedCats (swipe (direction_of (action (last (history three_liked)))) u)
        = likedCats three_liked \<and>
      history (swipe (direction_of (action (last (history three_liked)))) u)
        = history three_liked)"
proof -
  have p: "0 < currentIndex three_liked" by (simp add: three_liked_eq)
  have d: "distinct (map x_id (cats three_liked))" by (simp add: three_liked_eq cat_defs)
  from undo_swipe_roundtrip[OF reached_three_liked p d] reached_three_liked p d
  show ?thesis by blast
qed

text \<open>
  With two cats of one identifier in the batch the round trip fails. Both are liked and
  the second like is undone, which empties the liked cats; in that state the top entry is
  the like of \<open>catA\<close> while no cat is liked. Undoing and liking again then leaves \<open>catA\<close>
  liked.
\<close>

theorem undo_swipe_duplicate_ids:
  "reached_in_turn dup_undone \<and>
   0 < currentIndex dup_undone \<and>
   last (history dup_undone) = \<lparr>cat = Some catA, action = Like\<rparr> \<and>
   likedCats dup_undone = [] \<and>
   undoLast dup_undone = Inr (dup_undone\<lparr>currentIndex := 0, history := []\<rparr>) \<and>
   likedCats (swipe DirRight (dup_undone\<lparr>currentIndex := 0, history := []\<rparr>)) = [Some catA] \<and>
   likedIds dup_undone \<noteq>
     likedIds (swipe DirRight (dup_undone\<lparr>currentIndex := 0, history := []\<rparr>))"
proof -
  have a: "undoLast dup_undone = Inr (dup_undone\<lparr>currentIndex := 0, history := []\<rparr>)"
    by (simp add: dup_undone_eq undoLast_def entryA_def)
  have b: "likedCats (swipe DirRight (dup_undone\<lparr>currentIndex := 0, history := []\<rparr>))
      = [Some catA]"
    by (simp add: swipe_fields) (simp add: dup_undone_eq index_def)
  have c: "likedIds dup_undone = {}"
    by (simp add: likedIds_def dup_undone_eq map_filter_def)
  have d: "likedIds (swipe DirRight (dup_undone\<lparr>currentIndex := 0, history := []\<rparr>))
      = {Some ''a1''}"
    by (simp add: likedIds_def b map_filter_def catA_def)
  have e: "0 < currentIndex dup_undone" "likedCats dup_undone = []"
    "last (history dup_undone) = \<lparr>cat = Some catA, action = Like\<rparr>"
    by (simp_all add: dup_undone_eq entryA_def)
  from reached_dup_undone a b c d e show ?thesis by simp
qed

subsection \<open>undo with nothing to undo\<close>

text \<open>
  C5: when the history is empty, \<open>undoLast\<close> returns the state it was given, so the
  batch, the cursor, the liked cats and the history are unchanged.
\<close>

theorem undo_empty_history: "history s = [] \<Longrightarrow> undoLast s = Inr s"
  by (simp add: undoLast_def)

theorem undo_empty_history_witness:
  "history three_loaded = [] \<and> undoLast three_loaded = Inr three_loaded"
proof -
  have h: "history three_loaded = []" by (simp add: three_loaded_eq)
  from undo_empty_history[OF h] h show ?thesis by simp
qed

subsection \<open>The counters\<close>

text \<open>
  When the operations are carried out in turn, the liked counter plus the displayed
  disliked counter is the cursor, and the clamp of
  \<open>Math.max(0, currentIndex - likedCats.length)\<close> never acts.
\<close>

lemma counts_in_turn:
  assumes "reached_in_turn s"
  shows "likedCount s + dislikedCount s = currentIndex s \<and> likedCount s \<le> currentIndex s"
proof -
  have i: "session_inv s" using assms by (rule reached_inv)
  then have "length (likedCats s) \<le> length (likes (live s))"
    by (simp add: session_inv_def subseq_length)
  also have "\<dots> \<le> length (live s)" by (simp add: likes_def)
  also have "\<dots> = length (map cat (live s))" by simp
  also have "\<dots> = length (map Some (take (nat (currentIndex s)) (cats s)))"
    using i by (simp only: session_inv_def)
  also have "\<dots> \<le> nat (currentIndex s)" by simp
  finally have "length (likedCats s) \<le> nat (currentIndex s)" .
  moreover from i have "0 \<le> currentIndex s" by (simp add: session_inv_def)
  ultimately have "int (length (likedCats s)) \<le> currentIndex s" by linarith
  then show ?thesis by (simp add: likedCount_def dislikedCount_def)
qed

text \<open>
  C6 says that in every reachable state the liked counter plus the displayed disliked
  counter is the cursor, the liked counter never exceeding the cursor. The application
  gets to a state where this fails: three cats are loaded and the first is liked; the
  second is liked and, before the timer of that swipe has run, the like is undone; then
  the timer runs. Two cats are liked, the cursor is \<open>1\<close>, the disliked counter is clamped
  to \<open>0\<close>, and the two counters add up to \<open>2\<close>.
\<close>

theorem quick_undo_desyncs_counters:
  "play [FetchDone (Batch [catA, catB, catC]), Swipe DirRight, Timer, Swipe DirRight, Undo,
         Timer] (initial, []) = Some (quickly_undone, []) \<and>
   likedCount quickly_undone = 2 \<and> currentIndex quickly_undone = 1 \<and>
   dislikedCount quickly_undone = 0 \<and>
   likedCount quickly_undone + dislikedCount quickly_undone \<noteq> currentIndex quickly_undone"
  using play_quickly_undone
  by (simp add: likedCount_def dislikedCount_def) (simp add: quickly_undone_def)

subsection \<open>The cursor\<close>

text \<open>
  When the operations are carried out in turn, the cursor stays between \<open>0\<close> and the size
  of the batch; \<open>swipe\<close> raises it by one, and \<open>undoLast\<close> returns normally and either
  lowers it by one or changes nothing.
\<close>

lemma cursor_in_turn:
  assumes "reached_in_turn s"
  shows "0 \<le> currentIndex s \<and> currentIndex s \<le> int (length (cats s)) \<and>
     (\<forall>d. currentIndex (swipe d s) = currentIndex s + 1) \<and>
     (\<exists>u. undoLast s = Inr u \<and> (u = s \<or> currentIndex u = currentIndex s - 1))"
proof -
  have i: "session_inv s" using assms by (rule reached_inv)
  have "\<exists>u. undoLast s = Inr u"
  proof (cases "currentIndex s = 0")
    case True
    then show ?thesis by (simp add: undoLast_def)
  next
    case False
    from undoLast_inv_result[OF i False] show ?thesis by blast
  qed
  then have "\<exists>u. undoLast s = Inr u \<and> (u = s \<or> currentIndex u = currentIndex s - 1)"
    using undoLast_cursor by blast
  with i show ?thesis by (simp add: session_inv_def swipe_fields)
qed

text \<open>In every state the application gets to, the cursor is not negative.\<close>

lemma cursor_not_negative:
  assumes "play es (initial, []) = Some (s, ts)"
  shows "0 \<le> currentIndex s"
proof -
  have "booked (initial, [])" by (simp add: booked_def initial_def)
  from booked_play[OF this assms] show ?thesis by (simp add: booked_def)
qed

text \<open>
  C7 says that in every reachable state the cursor is between \<open>0\<close> and the size of the
  batch. The application gets to a state where the upper bound fails: one cat is loaded
  and "like" is tapped twice before the timer of the first tap has run; then both timers
  run. The cursor is \<open>2\<close> and the batch has one cat.
\<close>

theorem double_tap_overshoots:
  "play [FetchDone (Batch [catA]), Swipe DirRight, Swipe DirRight, Timer, Timer] (initial, [])
     = Some (double_tapped, []) \<and>
   currentIndex double_tapped = 2 \<and> length (cats double_tapped) = 1 \<and>
   \<not> currentIndex double_tapped \<le> int (length (cats double_tapped))"
  using play_double_tapped by (simp add: double_tapped_def)

subsection \<open>A failed fetch\<close>

text \<open>
  C8, as the code has it: when the batch fetch fails, \<open>fetchCats\<close> returns normally, the
  loading flag is clear and nothing else has changed: the batch is the one the state had
  before, which is the empty one on the first load.
\<close>

theorem fetch_failure_effect:
  "fetchCats (Failure e) s = Inr (s\<lparr>loading := False\<rparr>) \<and>
   fetch_done (Failure e) s = s\<lparr>loading := False\<rparr> \<and>
   cats (fetch_done (Failure e) s) = cats s"
  by (simp add: fetchCats_def fetch_done_def fetch_begin_def try_block_def)

text \<open>On the first load the batch stays empty.\<close>

theorem fetch_failure_effect_witness:
  "fetchCats (Failure FetchError) initial = Inr (initial\<lparr>loading := False\<rparr>) \<and>
   cats (initial\<lparr>loading := False\<rparr>) = []"
proof -
  from fetch_failure_effect[of FetchError initial]
  have "fetchCats (Failure FetchError) initial = Inr (initial\<lparr>loading := False\<rparr>)" by blast
  then show ?thesis by (simp add: initial_def)
qed

text \<open>
  After a reset the batch is not empty when the fetch fails: the cats of the session
  before are still there.
\<close>

theorem fetch_failure_keeps_batch:
  "fetchCats (Failure FetchError) one_played = Inr one_played \<and>
   cats one_played = [catA] \<and>
   reached_in_turn one_played \<and> summary_screen one_played \<and>
   cats (fetch_done (Failure FetchError) (resetApp one_played)) = [catA] \<and>
   cats (fetch_done (Failure FetchError) (resetApp one_played)) \<noteq> []"
  using summary_one_played reached_one_played
  by (simp add: fetchCats_def fetch_done_def fetch_begin_def try_block_def resetApp_def)
     (simp add: one_played_eq)

subsection \<open>undo at cursor 0\<close>

text \<open>
  In every state whose cursor is \<open>0\<close>, \<open>undoLast\<close> returns the state it was given, whatever
  the history holds.
\<close>

lemma undo_noop_at_cursor_zero: "currentIndex s = 0 \<Longrightarrow> undoLast s = Inr s"
  by (simp add: undoLast_def)

text \<open>
  From a state whose cursor is \<open>0\<close>, no events ever remove an entry of the history but
  the topmost ones, as many as swipe timers wait: all entries below stay at the bottom
  of the history. With no timer waiting, every entry stays.
\<close>

lemma entries_below_kept:
  assumes z: "currentIndex s = 0" and le: "length ts \<le> length (history s)"
    and p: "play es (s, ts) = Some (s', ts')"
  shows "prefix (take (length (history s) - length ts) (history s)) (history s')"
proof -
  let ?h = "take (length (history s) - length ts) (history s)"
  have "prefix ?h (history s)" by (rule take_is_prefix)
  moreover have "length ?h + length ts \<le> length (history s)" using le by simp
  ultimately have "keeps ?h (s, ts)" using z by (simp add: keeps_def)
  from keeps_play[OF this p] show ?thesis by (simp add: keeps_def)
qed

lemma entries_kept_without_timer:
  assumes "currentIndex s = 0" "play es (s, []) = Some (s', ts')"
  shows "prefix (history s) (history s')"
  using entries_below_kept[OF assms(1) _ assms(2)] by simp

lemma entries_kept_example:
  "currentIndex after_reset = 0 \<and> history after_reset = [entryA] \<and>
   undoLast after_reset = Inr after_reset \<and>
   play [FetchDone (Batch [catB, catC]), Swipe DirRight, Timer, Undo, Undo] (after_reset, [])
     = Some (later, []) \<and>
   prefix (history after_reset) (history later)"
proof -
  have z: "currentIndex after_reset = 0" by (simp add: after_reset_eq)
  have h: "history after_reset = [entryA]" by (simp add: after_reset_eq)
  from entries_kept_without_timer[OF z play_after_reset]
  have "prefix (history after_reset) (history later)" .
  with undo_noop_at_cursor_zero[OF z] z h play_after_reset show ?thesis by blast
qed

text \<open>
  C9 says that in every state with cursor \<open>0\<close> undo is a no-op even when the history is
  not empty, so that entries surviving a reset can never be popped or drive removals
  from the liked cats. The no-op holds, but the application gets to a state where an
  entry from before a reset is popped and drives such a removal. One cat is loaded and
  "like" is tapped twice before the timer of the first tap has run; that timer runs and
  the summary screen shows; "Start Over" is tapped while the timer of the second tap
  still waits, which \<open>resetApp\<close> does not cancel: the cursor is \<open>0\<close> and the history holds the
  two entries of the session before. The timer runs (cursor \<open>1\<close>, \<open>catA\<close> liked), the next
  batch arrives, and a tap on "undo" passes the guard, pops one of the two entries and
  filters \<open>catA\<close> out of the liked cats.
\<close>

theorem reset_mid_swipe_pops_old_entry:
  "play [FetchDone (Batch [catA]), Swipe DirRight, Swipe DirRight, Timer, Reset] (initial, [])
     = Some (reset_mid_swipe, [(DirRight, Some catA)]) \<and>
   currentIndex reset_mid_swipe = 0 \<and> history reset_mid_swipe = [entryA, entryA] \<and>
   play [Timer, FetchDone (Batch [catB, catC])] (reset_mid_swipe, [(DirRight, Some catA)])
     = Some (old_entry_on_top, []) \<and>
   currentIndex old_entry_on_top = 1 \<and> likedCats old_entry_on_top = [Some catA] \<and>
   history old_entry_on_top = [entryA, entryA] \<and>
   play [Undo] (old_entry_on_top, []) = Some (old_entry_popped, []) \<and>
   history old_entry_popped = [entryA] \<and> likedCats old_entry_popped = [] \<and>
   \<not> prefix (history reset_mid_swipe) (history old_entry_popped) \<and>
   play [FetchDone (Batch [catA]), Swipe DirRight, Swipe DirRight, Timer, Reset, Timer,
         FetchDone (Batch [catB, catC]), Undo] (initial, [])
     = Some (old_entry_popped, [])"
  using play_reset_mid_swipe play_old_entry_on_top play_old_entry_popped
    play_reset_mid_swipe_whole
  by (simp add: reset_mid_swipe_def old_entry_on_top_def old_entry_popped_def)

subsection \<open>undo of a like\<close>

text \<open>
  C10: when the top entry of the history is the like of a cat \<open>c\<close> (and the cursor is not
  \<open>0\<close>), \<open>undoLast\<close> removes from the liked cats every one that has the identifier of \<open>c\<close>:
  if \<open>k\<close> of them have it, the liked cats are \<open>k\<close> fewer afterwards, none of the rest has
  it, and the rest is in its old order.
\<close>

theorem undo_like_removes_all:
  assumes "history s \<noteq> []" "currentIndex s \<noteq> 0"
    and "last (history s) = \<lparr>cat = Some c, action = Like\<rparr>"
    and "None \<notin> set (likedCats s)"
    and "length (filter (\<lambda>x. map_option x_id x = Some (x_id c)) (likedCats s)) = k"
  shows "\<exists>u. undoLast s = Inr u \<and>
     likedCats u = filter (\<lambda>x. map_option x_id x \<noteq> Some (x_id c)) (likedCats s) \<and>
     x_id c \<notin> likedIds u \<and>
     length (likedCats u) + k = length (likedCats s) \<and>
     currentIndex u = currentIndex s - 1 \<and> history u = butlast (history s)"
proof -
  let ?P = "\<lambda>x. map_option x_id x = Some (x_id c)"
  define u where "u = s\<lparr>currentIndex := currentIndex s - 1,
     likedCats := filter (\<lambda>x. \<not> ?P x) (likedCats s), history := butlast (history s)\<rparr>"
  have "filter_ids (Some c) (likedCats s) = Inr (filter (\<lambda>x. \<not> ?P x) (likedCats s))"
    using filter_ids_defined[OF assms(4), of c] by (simp only: other_id_eq)
  then have un: "undoLast s = Inr u"
    by (simp only: undoLast_effective[OF assms(1,2)] assms(3) u_def)
      simp
  have "length (filter ?P (likedCats s)) + length (filter (\<lambda>x. \<not> ?P x) (likedCats s))
      = length (likedCats s)"
    by (rule sum_length_filter_compl)
  then have len: "length (likedCats u) + k = length (likedCats s)"
    using assms(5) by (simp add: u_def)
  have "x_id c \<notin> likedIds u"
    by (auto simp: likedIds_def u_def map_filter_def)
  with un len show ?thesis by (simp add: u_def)
qed

theorem undo_like_removes_all_witness:
  "history dup_liked \<noteq> [] \<and> currentIndex dup_liked \<noteq> 0 \<and>
   last (history dup_liked) = \<lparr>cat = Some catA', action = Like\<rparr> \<and>
   likedCats dup_liked = [Some catA, Some catA'] \<and>
   length (filter (\<lambda>x. map_option x_id x = Some (x_id catA')) (likedCats dup_liked)) = 2 \<and>
   (\<exists>u. undoLast dup_liked = Inr u \<and> likedCats u = [] \<and>
        length (likedCats u) + 2 = length (likedCats dup_liked))"
proof -
  have a: "history dup_liked \<noteq> []" "currentIndex dup_liked \<noteq> 0"
    "last (history dup_liked) = \<lparr>cat = Some catA', action = Like\<rparr>"
    "None \<notin> set (likedCats dup_liked)"
    "length (filter (\<lambda>x. map_option x_id x = Some (x_id catA')) (likedCats dup_liked)) = 2"
    by (simp_all add: dup_liked_eq cat_defs)
  have l: "likedCats dup_liked = [Some catA, Some catA']" by (simp add: dup_liked_eq)
  have f: "filter (\<lambda>x. map_option x_id x \<noteq> Some (x_id catA')) (likedCats dup_liked) = []"
    by (simp add: dup_liked_eq cat_defs)
  from undo_like_removes_all[OF a] obtain u where
    "undoLast dup_liked = Inr u" "likedCats u = []"
    "length (likedCats u) + 2 = length (likedCats dup_liked)"
    unfolding f by blast
  with a l show ?thesis by blast
qed

end
